theory Spec2Isabelle
  imports Main
begin

unbundle bit_operations_syntax

section \<open>Common data model\<close>

text \<open>
  The signing engine is Python.  Python integers are unbounded, so every integer of the
  engine is an \<open>int\<close> (or a \<open>nat\<close> where the source can only produce a non-negative
  value) and each 32-bit truncation \<open>& 0xFFFFFFFF\<close> is written out.  A Python \<open>str\<close> is a
  sequence of Unicode code points; it is modelled as the list of these code points
  (\<open>ord\<close> of each character), a \<open>bytes\<close> object as the list of its byte values.
  Exceptions are values of the type \<open>error\<close>; a function that can raise returns
  \<open>error + 'a\<close> with \<open>Inl\<close> for the exception.
\<close>

datatype error = IndexError | ValueError | ZeroDivisionError | UnicodeEncodeError

type_synonym pystr = "nat list"

text \<open>A Python \<open>str\<close> holds code points below \<open>0x110000\<close> only.\<close>

definition is_str :: "pystr \<Rightarrow> bool" where
  "is_str s = list_all (\<lambda>c. c < 0x110000) s"

text \<open>\<open>chr(i)\<close> raises \<open>ValueError\<close> outside \<open>range(0x110000)\<close>.\<close>

definition chr :: "nat \<Rightarrow> error + nat" where
  "chr i = (if i < 0x110000 then Inr i else Inl ValueError)"

text \<open>Sequencing of computations that may raise.\<close>

definition bind :: "error + 'a \<Rightarrow> ('a \<Rightarrow> error + 'b) \<Rightarrow> error + 'b" where
  "bind m f = (case m of Inl e \<Rightarrow> Inl e | Inr x \<Rightarrow> f x)"

text \<open>\<open>[f(x) for x in xs]\<close> where \<open>f\<close> may raise: the first exception wins.\<close>

fun mapM :: "('a \<Rightarrow> error + 'b) \<Rightarrow> 'a list \<Rightarrow> error + 'b list" where
  "mapM f [] = Inr []"
| "mapM f (x # xs) = bind (f x) (\<lambda>y. bind (mapM f xs) (\<lambda>ys. Inr (y # ys)))"

text \<open>A \<open>for\<close> loop over a list whose body may raise.\<close>

fun foldM :: "('a \<Rightarrow> 's \<Rightarrow> error + 's) \<Rightarrow> 'a list \<Rightarrow> 's \<Rightarrow> error + 's" where
  "foldM f [] s = Inr s"
| "foldM f (x # xs) s = bind (f x s) (foldM f xs)"

section \<open>Hash engine (SM3)\<close>

definition SM3_IV :: "int list" where
  "SM3_IV = [1937774191, 1226093241, 388252375, 3666478592,
             2842636476, 372324522, 3817729613, 2969243214]"

text \<open>\<open>_de(e, r)\<close>: rotate left by \<open>r mod 32\<close> (of a value below \<open>2^32\<close>).\<close>

definition de :: "int \<Rightarrow> nat \<Rightarrow> int" where
  "de e r = (push_bit (r mod 32) e AND 0xFFFFFFFF) OR drop_bit (32 - r mod 32) e"

text \<open>
  \<open>_sm3_compress(reg, block)\<close>.  The message expansion fills the 132-entry array \<open>w\<close> in
  three loops; the 64 rounds update the copy \<open>v\<close> of the register in place.  The
  function reads \<open>block[0..63]\<close> and \<open>reg[0..7]\<close>: a shorter list raises \<open>IndexError\<close>.
\<close>

definition w_load :: "int list \<Rightarrow> nat \<Rightarrow> int list \<Rightarrow> int list" where
  "w_load block t w =
     w[t := (push_bit 24 (block ! (4 * t)) OR push_bit 16 (block ! (4 * t + 1)) OR
             push_bit 8 (block ! (4 * t + 2)) OR block ! (4 * t + 3)) AND 0xFFFFFFFF]"

definition w_expand :: "nat \<Rightarrow> int list \<Rightarrow> int list" where
  "w_expand t w =
     (let a = w ! (t - 16) XOR w ! (t - 9) XOR de (w ! (t - 3)) 15;
          a = a XOR de a 15 XOR de a 23
      in w[t := (a XOR de (w ! (t - 13)) 7 XOR w ! (t - 6)) AND 0xFFFFFFFF])"

definition w_prime :: "nat \<Rightarrow> int list \<Rightarrow> int list" where
  "w_prime t w = w[t := (w ! (t - 68) XOR w ! (t - 64)) AND 0xFFFFFFFF]"

definition sm3_round :: "int list \<Rightarrow> nat \<Rightarrow> int list \<Rightarrow> int list" where
  "sm3_round w o' v =
     (let tj = (if o' < 16 then 2043430169 else 2055708042);
          c = (de (v ! 0) 12 + v ! 4 + de tj o') AND 0xFFFFFFFF;
          c = de c 7;
          s = (c XOR de (v ! 0) 12) AND 0xFFFFFFFF;
          ff = (if o' < 16 then (v ! 0 XOR v ! 1 XOR v ! 2) AND 0xFFFFFFFF
                else ((v ! 0 AND v ! 1) OR (v ! 0 AND v ! 2) OR (v ! 1 AND v ! 2)) AND 0xFFFFFFFF);
          gg = (if o' < 16 then (v ! 4 XOR v ! 5 XOR v ! 6) AND 0xFFFFFFFF
                else ((v ! 4 AND v ! 5) OR (NOT (v ! 4) AND v ! 6)) AND 0xFFFFFFFF);
          u = (ff + v ! 3 + s + w ! (o' + 68)) AND 0xFFFFFFFF;
          b = (gg + v ! 7 + c + w ! o') AND 0xFFFFFFFF;
          v = v[3 := v ! 2];
          v = v[2 := de (v ! 1) 9];
          v = v[1 := v ! 0];
          v = v[0 := u];
          v = v[7 := v ! 6];
          v = v[6 := de (v ! 5) 19];
          v = v[5 := v ! 4];
          v = v[4 := (b XOR de b 9 XOR de b 17) AND 0xFFFFFFFF]
      in v)"

definition sm3_compress :: "int list \<Rightarrow> int list \<Rightarrow> error + int list" where
  "sm3_compress reg block =
     (if length block < 64 \<or> length reg < 8 then Inl IndexError
      else
        let w = replicate 132 0;
            w = fold (w_load block) [0..<16] w;
            w = fold w_expand [16..<68] w;
            w = fold w_prime [68..<132] w;
            v = fold (sm3_round w) [0..<64] reg
        in Inr (map (\<lambda>i. (reg ! i XOR v ! i) AND 0xFFFFFFFF) [0..<8]))"

text \<open>\<open>[b[i:i + 64] for i in range(0, len(b), 64)]\<close>\<close>

fun chunks64 :: "'a list \<Rightarrow> 'a list list" where
  "chunks64 [] = []"
| "chunks64 (x # xs) = take 64 (x # xs) # chunks64 (drop 64 (x # xs))"

text \<open>The eight bytes of \<open>bit_len\<close>, most significant first:
  \<open>(bit_len >> (8 * i)) & 255\<close> for \<open>i = 7, \<dots>, 0\<close>.\<close>

definition len_bytes8 :: "int \<Rightarrow> int list" where
  "len_bytes8 bit_len = map (\<lambda>i. drop_bit (8 * i) bit_len AND 255) (rev [0..<8])"

text \<open>\<open>while len(last) % 64 != 56: last.append(0)\<close>\<close>

function pad56 :: "int list \<Rightarrow> int list" where
  "pad56 l = (if length l mod 64 \<noteq> 56 then pad56 (l @ [0]) else l)"
  by pat_completeness auto
termination
proof (relation "measure (\<lambda>l. (120 - length l mod 64) mod 64)")
  show "wf (measure (\<lambda>l::int list. (120 - length l mod 64) mod 64))"
    by simp
next
  fix l :: "int list"
  assume a: "length l mod 64 \<noteq> 56"
  define m where "m = length l mod 64"
  have m: "m < 64" "m \<noteq> 56"
    using a by (simp_all add: m_def)
  have s: "Suc (length l) mod 64 = (if Suc m = 64 then 0 else Suc m)"
    unfolding m_def by (simp add: mod_Suc)
  have "(120 - Suc (length l) mod 64) mod 64 < (120 - m) mod 64"
    unfolding s using m by (cases "m < 56") (auto simp: mod_if)
  then show "(l @ [0], l) \<in> measure (\<lambda>l. (120 - length l mod 64) mod 64)"
    by (simp add: m_def)
qed

text \<open>Serialisation of the register: the four bytes of each word, high byte first.\<close>

definition reg_bytes :: "int list \<Rightarrow> int list" where
  "reg_bytes reg = concat (map (\<lambda>v. map (\<lambda>shift. drop_bit shift v AND 255) [24, 16, 8, 0]) reg)"

text \<open>\<open>_sm3_hash(data)\<close>\<close>

definition sm3_hash :: "int list \<Rightarrow> error + int list" where
  "sm3_hash data =
     (let b = data;
          size' = length b;
          chunks = chunks64 b;
          chunks = (if chunks = [] then [[]] else chunks);
          last' = last chunks
      in bind (foldM (\<lambda>chunk reg. sm3_compress reg chunk) (butlast chunks) SM3_IV) (\<lambda>reg.
         let last' = last' @ [0x80];
             last' = pad56 last';
             bit_len = 8 * int size';
             last' = last' @ len_bytes8 bit_len
         in bind (foldM (\<lambda>blk reg. sm3_compress reg blk) (chunks64 last') reg) (\<lambda>reg.
            Inr (reg_bytes reg))))"

text \<open>
  \<open>_ABogus._sm3_sum(data)\<close>, the variant used for the user-agent hash.  Its argument is a
  \<open>str\<close>, read through \<open>ord\<close>.
\<close>

text \<open>\<open>while len(last) < 60: last.append(0)\<close>\<close>

function pad60 :: "int list \<Rightarrow> int list" where
  "pad60 l = (if length l < 60 then pad60 (l @ [0]) else l)"
  by pat_completeness auto
termination
  by (relation "measure (\<lambda>l. 60 - length l)") auto

text \<open>The loop writing the register into the 32-entry output array \<open>o\<close>.\<close>

definition sum_bytes_step :: "int list \<Rightarrow> nat \<Rightarrow> int list \<Rightarrow> int list" where
  "sum_bytes_step reg i o' =
     (let c = reg ! i;
          o' = o'[4 * i + 3 := 255 AND c];
          c = drop_bit 8 c;
          o' = o'[4 * i + 2 := 255 AND c];
          c = drop_bit 8 c;
          o' = o'[4 * i + 1 := 255 AND c];
          c = drop_bit 8 c;
          o' = o'[4 * i := 255 AND c]
      in o')"

definition sm3_sum :: "pystr \<Rightarrow> error + int list" where
  "sm3_sum data =
     (let reg = SM3_IV;
          b = map int data;
          size' = length b;
          chunks = chunks64 b;
          chunks = (if length chunks = 0 then [[]] else chunks);
          last' = last chunks
      in bind (foldM (\<lambda>chunk reg. sm3_compress reg chunk) (butlast chunks) reg) (\<lambda>reg.
         let last' = last' @ [128];
             last' = pad60 last';
             bit_len = 8 * int size';
             last' = last' @ map (\<lambda>i. drop_bit (8 * (3 - i)) bit_len AND 255) [0..<4]
         in bind (sm3_compress reg last') (\<lambda>reg.
            Inr (fold (sum_bytes_step reg) [0..<8] (replicate 32 0)))))"

section \<open>Stream cipher (RC4)\<close>

text \<open>
  \<open>_rc4(plaintext, key)\<close>.  The key schedule runs over \<open>i = 0, \<dots>, 255\<close> on the table
  \<open>s = list(range(256))\<close>; \<open>i % len(key)\<close> raises \<open>ZeroDivisionError\<close> for the empty key.
  The swap \<open>s[i], s[j] = s[j], s[i]\<close> reads both entries before it writes.  After the key
  schedule \<open>i\<close> and \<open>j\<close> are reset to 0.  Every table entry and index is non-negative, so
  they are naturals.
\<close>

definition ksa_step :: "pystr \<Rightarrow> nat \<Rightarrow> nat list \<times> nat \<Rightarrow> error + nat list \<times> nat" where
  "ksa_step key i sj =
     (case sj of (s, j) \<Rightarrow>
        if length key = 0 then Inl ZeroDivisionError
        else let j = (j + s ! i + key ! (i mod length key)) mod 256;
                 s = s[i := s ! j, j := s ! i]
             in Inr (s, j))"

text \<open>The generation loop \<open>for k in range(len(plaintext))\<close>, one output character per
  input character.\<close>

fun prga :: "pystr \<Rightarrow> nat list \<Rightarrow> nat \<Rightarrow> nat \<Rightarrow> error + pystr" where
  "prga [] s i j = Inr []"
| "prga (p # ps) s i j =
     (let i = (i + 1) mod 256;
          j = (j + s ! i) mod 256;
          s = s[i := s ! j, j := s ! i]
      in bind (chr (s ! ((s ! i + s ! j) mod 256) XOR p)) (\<lambda>c.
         bind (prga ps s i j) (\<lambda>cs. Inr (c # cs))))"

definition rc4 :: "pystr \<Rightarrow> pystr \<Rightarrow> error + pystr" where
  "rc4 plaintext key =
     bind (foldM (ksa_step key) [0..<256] ([0..<256], 0)) (\<lambda>sj. prga plaintext (fst sj) 0 0)"

text \<open>The invariant of the permutation table: 256 entries, each a byte.\<close>

definition sbox :: "nat list \<Rightarrow> bool" where
  "sbox s = (length s = 256 \<and> (\<forall>x\<in>set s. x < 256))"

section \<open>Strings, indexing and number rendering\<close>

text \<open>A string literal of the source, as the list of its code points.\<close>

definition str :: "string \<Rightarrow> pystr" where
  "str cs = map of_char cs"

text \<open>
  \<open>xs[i]\<close> for a list or a string: an index outside the list raises \<open>IndexError\<close>, a
  negative index counts from the end.
\<close>

definition getitem :: "'a list \<Rightarrow> int \<Rightarrow> error + 'a" where
  "getitem xs i =
     (if 0 \<le> i \<and> i < int (length xs) then Inr (xs ! nat i)
      else if i < 0 \<and> - int (length xs) \<le> i then Inr (xs ! nat (int (length xs) + i))
      else Inl IndexError)"

text \<open>\<open>range(0, n, 3)\<close>\<close>

definition range3 :: "nat \<Rightarrow> nat list" where
  "range3 n = map (\<lambda>k. 3 * k) [0..<(n + 2) div 3]"

text \<open>
  Digits of a natural number in a base, most significant first, over a digit alphabet:
  the loop \<open>while num: num, i = divmod(num, base); result = alphabet[i] + result\<close>.
\<close>

function digits_loop :: "pystr \<Rightarrow> nat \<Rightarrow> nat \<Rightarrow> pystr \<Rightarrow> pystr" where
  "digits_loop alphabet base num result =
     (if num \<noteq> 0 \<and> 1 < base
      then digits_loop alphabet base (num div base) (alphabet ! (num mod base) # result)
      else result)"
  by pat_completeness auto
termination
  by (relation "measure (\<lambda>(alphabet, base, num, result). num)") auto

declare digits_loop.simps [simp del]

text \<open>\<open>str(n)\<close> and \<open>hex(n)[2:]\<close> of a non-negative integer (library functions).\<close>

definition str_of_nat :: "nat \<Rightarrow> pystr" where
  "str_of_nat n = (if n = 0 then str ''0'' else digits_loop (str ''0123456789'') 10 n [])"

definition hex_of_nat :: "nat \<Rightarrow> pystr" where
  "hex_of_nat n = (if n = 0 then str ''0'' else digits_loop (str ''0123456789abcdef'') 16 n [])"

section \<open>Identity generators\<close>

text \<open>
  \<open>get_xhs_search_id()\<close>.  The clock reading \<open>int(time.time() * 1000)\<close> and the random
  draw \<open>int(random.uniform(0, 2147483646))\<close> are the arguments \<open>now_ms\<close> and \<open>t\<close>.
\<close>

definition alphabet36 :: pystr where
  "alphabet36 = str ''0123456789ABCDEFGHIJKLMNOPQRSTUVWXYZ''"

definition get_xhs_search_id :: "nat \<Rightarrow> nat \<Rightarrow> pystr" where
  "get_xhs_search_id now_ms t =
     (let e = push_bit 64 now_ms;
          num = e + t
      in if num = 0 then str ''0'' else digits_loop alphabet36 36 num [])"

text \<open>
  Decoding a base-36 string back to an integer, as the specification words it: the
  value of a digit is its position in the alphabet, and the digits are read most
  significant first.
\<close>

fun index_of :: "'a \<Rightarrow> 'a list \<Rightarrow> nat" where
  "index_of x [] = 0"
| "index_of x (y # ys) = (if x = y then 0 else Suc (index_of x ys))"

fun decode36_from :: "nat \<Rightarrow> pystr \<Rightarrow> nat" where
  "decode36_from acc [] = acc"
| "decode36_from acc (c # s) = decode36_from (36 * acc + index_of c alphabet36) s"

definition decode36 :: "pystr \<Rightarrow> nat" where
  "decode36 s = decode36_from 0 s"

section \<open>Protocol B encoders\<close>

text \<open>\<open>_xhs_h(n)\<close>: one step of the loop \<open>for i in range(0, 32, 3)\<close>, appending four
  characters to \<open>m\<close>.\<close>

definition xhs_d :: pystr where
  "xhs_d = str ''A4NjFqYu5wPHsO0XTdDgMa2r1ZQocVte9UJBvk6/7=yRnhISGKblCWi+LpfE8xzm3''"

definition xhs_h_step :: "pystr \<Rightarrow> nat \<Rightarrow> pystr \<Rightarrow> error + pystr" where
  "xhs_h_step n i m =
     bind (getitem n (int i)) (\<lambda>o'.
     bind (if i + 1 < 32 then getitem n (int i + 1) else Inr 0) (\<lambda>g.
     bind (if i + 2 < 32 then getitem n (int i + 2) else Inr 0) (\<lambda>h.
       let o' = int o'; g = int g; h = int h;
           x = push_bit 4 (o' AND 3) OR drop_bit 4 g;
           p = push_bit 2 (15 AND g) OR drop_bit 6 h;
           v = drop_bit 2 o';
           b = (if h \<noteq> 0 then h AND 63 else 64);
           p = (if g = 0 then 64 else p);
           b = (if g = 0 then 64 else b)
       in bind (getitem xhs_d v) (\<lambda>c1.
          bind (getitem xhs_d x) (\<lambda>c2.
          bind (getitem xhs_d p) (\<lambda>c3.
          bind (getitem xhs_d b) (\<lambda>c4.
            Inr (m @ [c1, c2, c3, c4]))))))))"

definition xhs_h :: "pystr \<Rightarrow> error + pystr" where
  "xhs_h n = foldM (xhs_h_step n) (range3 32) []"

text \<open>A lowercase hexadecimal MD5 digest: 32 characters out of \<open>0-9a-f\<close>.\<close>

definition is_hexdigest :: "pystr \<Rightarrow> bool" where
  "is_hexdigest n = (length n = 32 \<and> list_all (\<lambda>c. c \<in> set (str ''0123456789abcdef'')) n)"

section \<open>CRC32 variant\<close>

definition MRC_TABLE :: "int list" where
  "MRC_TABLE = [
     0, 1996959894, 3993919788, 2567524794, 124634137, 1886057615,
     3915621685, 2657392035, 249268274, 2044508324, 3772115230, 2547177864,
     162941995, 2125561021, 3887607047, 2428444049, 498536548, 1789927666,
     4089016648, 2227061214, 450548861, 1843258603, 4107580753, 2211677639,
     325883990, 1684777152, 4251122042, 2321926636, 335633487, 1661365465,
     4195302755, 2366115317, 997073096, 1281953886, 3579855332, 2724688242,
     1006888145, 1258607687, 3524101629, 2768942443, 901097722, 1119000684,
     3686517206, 2898065728, 853044451, 1172266101, 3705015759, 2882616665,
     651767980, 1373503546, 3369554304, 3218104598, 565507253, 1454621731,
     3485111705, 3099436303, 671266974, 1594198024, 3322730930, 2970347812,
     795835527, 1483230225, 3244367275, 3060149565, 1994146192, 31158534,
     2563907772, 4023717930, 1907459465, 112637215, 2680153253, 3904427059,
     2013776290, 251722036, 2517215374, 3775830040, 2137656763, 141376813,
     2439277719, 3865271297, 1802195444, 476864866, 2238001368, 4066508878,
     1812370925, 453092731, 2181625025, 4111451223, 1706088902, 314042704,
     2344532202, 4240017532, 1658658271, 366619977, 2362670323, 4224994405,
     1303535960, 984961486, 2747007092, 3569037538, 1256170817, 1037604311,
     2765210733, 3554079995, 1131014506, 879679996, 2909243462, 3663771856,
     1141124467, 855842277, 2852801631, 3708648649, 1342533948, 654459306,
     3188396048, 3373015174, 1466479909, 544179635, 3110523913, 3462522015,
     1591671054, 702138776, 2966460450, 3352799412, 1504918807, 783551873,
     3082640443, 3233442989, 3988292384, 2596254646, 62317068, 1957810842,
     3939845945, 2647816111, 81470997, 1943803523, 3814918930, 2489596804,
     225274430, 2053790376, 3826175755, 2466906013, 167816743, 2097651377,
     4027552580, 2265490386, 503444072, 1762050814, 4150417245, 2154129355,
     426522225, 1852507879, 4275313526, 2312317920, 282753626, 1742555852,
     4189708143, 2394877945, 397917763, 1622183637, 3604390888, 2714866558,
     953729732, 1340076626, 3518719985, 2797360999, 1068828381, 1219638859,
     3624741850, 2936675148, 906185462, 1090812512, 3747672003, 2825379669,
     829329135, 1181335161, 3412177804, 3160834842, 628085408, 1382605366,
     3423369109, 3138078467, 570562233, 1426400815, 3317316542, 2998733608,
     733239954, 1555261956, 3268935591, 3050360625, 752459403, 1541320221,
     2607071920, 3965973030, 1969922972, 40735498, 2617837225, 3943577151,
     1913087877, 83908371, 2512341634, 3803740692, 2075208622, 213261112,
     2463272603, 3855990285, 2094854071, 198958881, 2262029012, 4057260610,
     1759359992, 534414190, 2176718541, 4139329115, 1873836001, 414664567,
     2282248934, 4279200368, 1711684554, 285281116, 2405801727, 4167216745,
     1634467795, 376229701, 2685067896, 3608007406, 1308918612, 956543938,
     2808555105, 3495958263, 1231636301, 1047427035, 2932959818, 3654703836,
     1088359270, 936918000, 2847714899, 3736837829, 1202900863, 817233897,
     3183342108, 3401237130, 1404277552, 615818150, 3134207493, 3453421203,
     1423857449, 601450431, 3009837614, 3294710456, 1567103746, 711928724,
     3020668471, 3272380065, 1510334235, 755167117]"

text \<open>
  \<open>_rws(num, bit)\<close>, local to \<open>_mrc\<close>: \<open>ctypes.c_uint32(num).value\<close> is \<open>num\<close> modulo
  \<open>2^32\<close>.
\<close>

definition rws :: "int \<Rightarrow> nat \<Rightarrow> int" where
  "rws num bit' =
     (let val = drop_bit bit' (num mod 2 ^ 32);
          M = 4294967295
      in (val + (M + 1)) mod (2 * (M + 1)) - M - 1)"

text \<open>\<open>_mrc(e)\<close>: the loop over \<open>range(57)\<close>, then the final transform.\<close>

definition mrc_step :: "pystr \<Rightarrow> nat \<Rightarrow> int \<Rightarrow> error + int" where
  "mrc_step e n o' =
     bind (getitem e (int n)) (\<lambda>c.
     bind (getitem MRC_TABLE ((o' AND 255) XOR int c)) (\<lambda>t.
       Inr (t XOR rws o' 8)))"

definition mrc_loop :: "pystr \<Rightarrow> error + int" where
  "mrc_loop e = foldM (mrc_step e) [0..<57] (- 1)"

definition mrc :: "pystr \<Rightarrow> error + int" where
  "mrc e = bind (mrc_loop e) (\<lambda>o'. Inr (o' XOR (- 1) XOR 3988292384))"

text \<open>
  The standard CRC32 lookup table, as the specification names it: entry \<open>n\<close> is \<open>n\<close>
  after eight steps of the reflected polynomial \<open>0xEDB88320\<close>.
\<close>

definition crc32_entry :: "int \<Rightarrow> int" where
  "crc32_entry n = ((\<lambda>c. if odd c then 0xEDB88320 XOR drop_bit 1 c else drop_bit 1 c) ^^ 8) n"

section \<open>Verified properties\<close>

subsection \<open>Hash engine\<close>

lemma sm3_hash_abc:
  "sm3_hash [97, 98, 99] =
   Inr [102, 199, 240, 244, 98, 238, 237, 217, 209, 242, 212, 107, 220, 16, 228, 226, 65, 103, 196, 135, 92, 242, 247, 162, 41, 125, 160, 43, 143, 75, 168, 224]"
  by code_simp

lemma sm3_hash_abcd16:
  "sm3_hash (concat (replicate 16 [97, 98, 99, 100])) =
   Inr [222, 190, 159, 249, 34, 117, 184, 161, 56, 96, 72, 137, 193, 142, 90, 77, 111, 219, 112, 229, 56, 126, 87, 101, 41, 61, 203, 163, 156, 12, 87, 50]"
  by code_simp

lemma sm3_sum_abcd16:
  "sm3_sum (concat (replicate 16 [97, 98, 99, 100])) =
   Inr [89, 80, 222, 129, 70, 134, 100, 235, 66, 253, 76, 134, 30, 124, 160, 10, 192, 165, 145, 11, 174, 154, 85, 234, 26, 219, 141, 23, 118, 60, 162, 34]"
  by code_simp

text \<open>
  C1.  The hash engine reproduces the two published SM3 vectors: the digest of the three
  bytes \<open>abc\<close> is \<open>66c7f0f4 62eeedd9 d1f2d46b dc10e4e2 4167c487 5cf2f7a2 297da02b 8f4ba8e0\<close>,
  and the digest of the 64 bytes \<open>abcd\<close> repeated 16 times is
  \<open>debe9ff9 2275b8a1 38604889 c18e5a4d 6fdb70e5 387e5765 293dcba3 9c0c5732\<close>.
\<close>

theorem sm3_reference_vectors:
  "sm3_hash [0x61, 0x62, 0x63] =
     Inr [0x66, 0xc7, 0xf0, 0xf4, 0x62, 0xee, 0xed, 0xd9, 0xd1, 0xf2, 0xd4, 0x6b, 0xdc, 0x10, 0xe4, 0xe2,
          0x41, 0x67, 0xc4, 0x87, 0x5c, 0xf2, 0xf7, 0xa2, 0x29, 0x7d, 0xa0, 0x2b, 0x8f, 0x4b, 0xa8, 0xe0] \<and>
   sm3_hash (concat (replicate 16 [0x61, 0x62, 0x63, 0x64])) =
     Inr [0xde, 0xbe, 0x9f, 0xf9, 0x22, 0x75, 0xb8, 0xa1, 0x38, 0x60, 0x48, 0x89, 0xc1, 0x8e, 0x5a, 0x4d,
          0x6f, 0xdb, 0x70, 0xe5, 0x38, 0x7e, 0x57, 0x65, 0x29, 0x3d, 0xcb, 0xa3, 0x9c, 0x0c, 0x57, 0x32]"
  using sm3_hash_abc sm3_hash_abcd16 by simp

text \<open>
  C2.  The variant \<open>_sm3_sum\<close> pads to 60 bytes, appends a 4-byte length and compresses
  one block only.  On the 64 characters \<open>abcd\<close> repeated 16 times it compresses the bare
  message and never reaches the padding: its digest starts \<open>59 50 de 81\<close>, while the
  standard padding, which \<open>_sm3_hash\<close> implements, gives \<open>de be 9f f9 \<dots>\<close>.
\<close>

theorem sm3_sum_not_standard:
  "sm3_sum (concat (replicate 16 [97, 98, 99, 100])) =
     Inr [89, 80, 222, 129, 70, 134, 100, 235, 66, 253, 76, 134, 30, 124, 160, 10, 192, 165, 145, 11, 174, 154, 85, 234, 26, 219, 141, 23, 118, 60, 162, 34] \<and>
   sm3_sum (concat (replicate 16 [97, 98, 99, 100])) \<noteq>
     sm3_hash (map int (concat (replicate 16 [97, 98, 99, 100])))"
proof -
  have "map int (concat (replicate 16 [97, 98, 99, 100])) = concat (replicate 16 [97, 98, 99, 100])"
    by (simp add: map_concat)
  then show ?thesis
    by (simp only: sm3_sum_abcd16 sm3_hash_abcd16) simp
qed

subsection \<open>Stream cipher\<close>

lemma sbox_swap: "sbox s \<Longrightarrow> i < 256 \<Longrightarrow> j < 256 \<Longrightarrow> sbox (s[i := s ! j, j := s ! i])"
  unfolding sbox_def
  by (auto dest!: set_update_subset_insert [THEN subsetD])

lemma sbox_nth: "sbox s \<Longrightarrow> i < 256 \<Longrightarrow> s ! i < 256"
  by (simp add: sbox_def)

lemma ksa_total:
  "key \<noteq> [] \<Longrightarrow> sbox s \<Longrightarrow> \<forall>i\<in>set xs. i < 256 \<Longrightarrow>
   \<exists>s' j'. foldM (ksa_step key) xs (s, j) = Inr (s', j') \<and> sbox s'"
proof (induction xs arbitrary: s j)
  case Nil
  then show ?case by simp
next
  case (Cons x xs)
  let ?j = "(j + s ! x + key ! (x mod length key)) mod 256"
  have "sbox (s[x := s ! ?j, ?j := s ! x])"
    using Cons.prems by (intro sbox_swap) simp_all
  from Cons.IH [OF Cons.prems(1) this, of ?j] Cons.prems
  show ?case by (simp add: ksa_step_def bind_def Let_def)
qed

lemma sbox_init: "sbox [0..<256]"
  by (simp add: sbox_def)

lemma xor_byte_div: "k < 256 \<Longrightarrow> (k XOR p) div 256 = p div (256::nat)"
proof -
  assume "k < 256"
  then have "drop_bit 8 k = 0" by (simp add: drop_bit_eq_div)
  then have "drop_bit 8 (k XOR p) = drop_bit 8 p" by (simp add: drop_bit_xor)
  then show ?thesis by (simp add: drop_bit_eq_div)
qed

lemma xor_byte_str: "k < 256 \<Longrightarrow> p < 0x110000 \<Longrightarrow> k XOR p < (0x110000::nat)"
proof -
  assume k: "k < 256" and p: "p < 0x110000"
  have "p div 256 < 4352" using p by simp
  then have "(k XOR p) div 256 < 4352" by (simp add: xor_byte_div [OF k])
  then show ?thesis by simp
qed

lemma xor_cancel: "k XOR (k XOR p) = (p::nat)"
  by (simp flip: xor.assoc)

lemma prga_props:
  "sbox s \<Longrightarrow> i < 256 \<Longrightarrow> j < 256 \<Longrightarrow> is_str ps \<Longrightarrow>
   \<exists>cs. prga ps s i j = Inr cs \<and> length cs = length ps \<and> is_str cs \<and>
        prga cs s i j = Inr ps \<and> (\<forall>k<length ps. cs ! k div 256 = ps ! k div 256)"
proof (induction ps arbitrary: s i j)
  case Nil
  then show ?case by simp
next
  case (Cons p ps)
  define i' where "i' = (i + 1) mod 256"
  define j' where "j' = (j + s ! i') mod 256"
  define s' where "s' = s[i' := s ! j', j' := s ! i']"
  define k where "k = s' ! ((s' ! i' + s' ! j') mod 256)"
  have step: "prga (q # qs) s i j =
      bind (chr (k XOR q)) (\<lambda>c. bind (prga qs s' i' j') (\<lambda>cs. Inr (c # cs)))" for q qs
    unfolding k_def s'_def j'_def i'_def by (simp only: prga.simps Let_def)
  have i': "i' < 256" and j': "j' < 256" by (simp_all add: i'_def j'_def)
  have sb: "sbox s'" unfolding s'_def using Cons.prems(1) i' j' by (rule sbox_swap)
  have k: "k < 256" unfolding k_def using sb by (rule sbox_nth) simp
  have p: "p < 0x110000" and ps: "is_str ps" using Cons.prems by (simp_all add: is_str_def)
  from Cons.IH [OF sb i' j' ps]
  obtain cs where cs: "prga ps s' i' j' = Inr cs" "length cs = length ps" "is_str cs"
    "prga cs s' i' j' = Inr ps" "\<forall>k<length ps. cs ! k div 256 = ps ! k div 256"
    by blast
  have c: "k XOR p < 0x110000" using k p by (rule xor_byte_str)
  have 1: "prga (p # ps) s i j = Inr ((k XOR p) # cs)"
    using c by (simp add: step cs(1) chr_def bind_def del: prga.simps)
  have 2: "prga ((k XOR p) # cs) s i j = Inr (p # ps)"
    using p by (simp add: step cs(4) chr_def bind_def xor_cancel del: prga.simps)
  have 3: "((k XOR p) # cs) ! n div 256 = (p # ps) ! n div 256" if "n < length (p # ps)" for n
    using that cs(5) xor_byte_div [OF k, of p] by (cases n) simp_all
  have 4: "is_str ((k XOR p) # cs)" using c cs(3) by (simp add: is_str_def)
  show ?case using 1 2 3 4 cs(2) by simp
qed

lemma ksa_256:
  assumes "key \<noteq> []"
  shows "\<exists>s' j'. foldM (ksa_step key) [0..<256] ([0..<256], 0) = Inr (s', j') \<and> sbox s'"
proof -
  have "\<forall>i\<in>set [0..<256]. i < (256::nat)"
    by (simp only: set_upt atLeastLessThan_iff) simp
  with assms sbox_init show ?thesis by (rule ksa_total)
qed

lemma rc4_props:
  assumes "key \<noteq> []" "is_str p"
  shows "\<exists>c. rc4 p key = Inr c \<and> length c = length p \<and> is_str c \<and> rc4 c key = Inr p \<and>
             (\<forall>k<length p. c ! k div 256 = p ! k div 256)"
proof -
  obtain s j where ksa: "foldM (ksa_step key) [0..<256] ([0..<256], 0) = Inr (s, j)" and s: "sbox s"
    using ksa_256 [OF assms(1)] by blast
  from prga_props [OF s _ _ assms(2), of 0 0]
  show ?thesis unfolding rc4_def ksa by (simp add: bind_def)
qed

text \<open>
  C3.  For every plaintext and every non-empty key the cipher returns a string of the
  length of its input, and applying it again under the same key gives the input back.
\<close>

theorem rc4_involution:
  assumes "key \<noteq> []" and "is_str p"
  shows "\<exists>c. rc4 p key = Inr c \<and> length c = length p \<and> rc4 c key = Inr p"
  using rc4_props [OF assms] by blast

theorem rc4_involution_witness:
  "[121] \<noteq> ([]::nat list) \<and> is_str [104, 105] \<and>
   (\<exists>c. rc4 [104, 105] [121] = Inr c \<and> length c = length [104::nat, 105] \<and>
        rc4 c [121] = Inr [104, 105])"
proof -
  have k: "[121] \<noteq> ([]::nat list)" by simp
  have p: "is_str [104, 105]" by (simp add: is_str_def)
  from rc4_involution [OF k p] k p show ?thesis by blast
qed

text \<open>
  C7 (as stated).  The claim asks that an input element outside 0-255 is rejected or
  normalised.  The cipher does neither: on the one-character plaintext with code 300
  and the key \<open>y\<close> it returns normally, and the character it returns has a code above
  255 again.
\<close>

theorem rc4_accepts_wide_char:
  "\<not> isl (rc4 [300] [121]) \<and> length (projr (rc4 [300] [121])) = 1 \<and>
   255 < projr (rc4 [300] [121]) ! 0"
proof -
  have k: "[121] \<noteq> ([]::nat list)" by simp
  have p: "is_str [300]" by (simp add: is_str_def)
  from rc4_props [OF k p] obtain c where c: "rc4 [300] [121] = Inr c" "length c = 1"
    "c ! 0 div 256 = 300 div 256"
    by auto
  from c(3) have "0 < c ! 0 div 256" by simp
  then have "255 < c ! 0" by (simp add: div_greater_zero_iff)
  with c(1,2) show ?thesis by simp
qed

text \<open>
  C7 (amended).  The cipher has no range check and no normalisation: for every string
  and every non-empty key it returns a string of the same length, and each output
  character differs from its input character in the low eight bits only.  An element
  outside 0-255 therefore yields an output element outside 0-255.
\<close>

theorem rc4_keeps_high_bits:
  assumes "key \<noteq> []" and "is_str p"
  shows "\<exists>c. rc4 p key = Inr c \<and> length c = length p \<and>
             (\<forall>k<length p. c ! k div 256 = p ! k div 256 \<and> (255 < p ! k \<longrightarrow> 255 < c ! k))"
proof -
  from rc4_props [OF assms] obtain c where c: "rc4 p key = Inr c" "length c = length p"
    "\<forall>k<length p. c ! k div 256 = p ! k div 256"
    by blast
  have "255 < c ! k" if "k < length p" "255 < p ! k" for k
  proof -
    from that c(3) have "c ! k div 256 = p ! k div 256" by simp
    moreover from that(2) have "0 < p ! k div 256" by (simp add: div_greater_zero_iff)
    ultimately have "0 < c ! k div 256" by simp
    then show ?thesis by (simp add: div_greater_zero_iff)
  qed
  with c show ?thesis by blast
qed

theorem rc4_keeps_high_bits_witness:
  "[121] \<noteq> ([]::nat list) \<and> is_str [300] \<and>
   (\<exists>c. rc4 [300] [121] = Inr c \<and> length c = 1 \<and> c ! 0 div 256 = 1)"
proof -
  have k: "[121] \<noteq> ([]::nat list)" by simp
  have p: "is_str [300]" by (simp add: is_str_def)
  from rc4_keeps_high_bits [OF k p] k p show ?thesis by auto
qed

subsection \<open>Identity generators: the search id\<close>

lemma index_of_nth: "distinct xs \<Longrightarrow> i < length xs \<Longrightarrow> index_of (xs ! i) xs = i"
proof (induction xs arbitrary: i)
  case Nil
  then show ?case by simp
next
  case (Cons x xs)
  then show ?case by (cases i) auto
qed

lemma alphabet36_props: "length alphabet36 = 36" "distinct alphabet36"
  by (simp_all add: alphabet36_def str_def)

lemma digit36_nth: "d < 36 \<Longrightarrow> index_of (alphabet36 ! d) alphabet36 = d"
  by (rule index_of_nth) (simp_all add: alphabet36_props)

lemma decode36_from_acc:
  "decode36_from a s = a * 36 ^ length s + decode36_from 0 s"
proof (induction s arbitrary: a)
  case Nil
  then show ?case by simp
next
  case (Cons c s)
  define d where "d = index_of c alphabet36"
  have "decode36_from a (c # s) = decode36_from (36 * a + d) s"
    by (simp add: d_def)
  also have "\<dots> = (36 * a + d) * 36 ^ length s + decode36_from 0 s"
    by (rule Cons.IH)
  finally have 1: "decode36_from a (c # s) = (36 * a + d) * 36 ^ length s + decode36_from 0 s" .
  have "decode36_from 0 (c # s) = decode36_from d s"
    by (simp add: d_def)
  also have "\<dots> = d * 36 ^ length s + decode36_from 0 s"
    by (rule Cons.IH)
  finally have 2: "decode36_from 0 (c # s) = d * 36 ^ length s + decode36_from 0 s" .
  show ?case unfolding 1 2 by (simp add: algebra_simps)
qed

lemma decode36_Nil: "decode36 [] = 0"
  by (simp add: decode36_def)

lemma decode36_Cons: "decode36 (c # s) = index_of c alphabet36 * 36 ^ length s + decode36 s"
  unfolding decode36_def by (simp add: decode36_from_acc [of "index_of c alphabet36"])

lemma decode36_digits_loop:
  "a = alphabet36 \<Longrightarrow> b = 36 \<Longrightarrow>
   decode36 (digits_loop a b n r) = n * 36 ^ length r + decode36 r"
proof (induction a b n r rule: digits_loop.induct)
  case (1 a b n r)
  show ?case
  proof (cases "n = 0")
    case True
    then show ?thesis by (subst digits_loop.simps) simp
  next
    case False
    have d: "index_of (alphabet36 ! (n mod 36)) alphabet36 = n mod 36"
      by (rule digit36_nth) simp
    have "decode36 (digits_loop a b n r) =
          decode36 (digits_loop a b (n div b) (a ! (n mod b) # r))"
      using False "1.prems" by (subst digits_loop.simps) simp
    also have "\<dots> = (n div 36) * 36 ^ Suc (length r) + decode36 (alphabet36 ! (n mod 36) # r)"
      using "1.IH" False "1.prems" by simp
    also have "\<dots> = (n div 36 * 36 + n mod 36) * 36 ^ length r + decode36 r"
      unfolding decode36_Cons d by (simp only: power_Suc add_mult_distrib mult.assoc add.assoc)
    also have "n div 36 * 36 + n mod 36 = n" by simp
    finally show ?thesis .
  qed
qed

lemma decode36_search_id: "decode36 (get_xhs_search_id now_ms t) = now_ms * 2 ^ 64 + t"
proof (cases "push_bit 64 now_ms + t = 0")
  case True
  then have "now_ms = 0" "t = 0" by (simp_all add: push_bit_eq_mult)
  moreover have "decode36 (str ''0'') = 0"
    by (simp add: decode36_def str_def alphabet36_def)
  ultimately show ?thesis by (simp add: get_xhs_search_id_def)
next
  case False
  then have "get_xhs_search_id now_ms t = digits_loop alphabet36 36 (push_bit 64 now_ms + t) []"
    by (auto simp: get_xhs_search_id_def Let_def push_bit_eq_mult)
  then show ?thesis
    by (simp add: decode36_digits_loop decode36_Nil push_bit_eq_mult)
qed

text \<open>
  C9 (as stated).  Two calls in the same millisecond, the first drawing 1 and the
  second drawing 0: the timestamps are non-decreasing, the decoded ids decrease.
\<close>

theorem search_id_same_ms_decreasing:
  "\<not> decode36 (get_xhs_search_id 1700000000000 1) \<le> decode36 (get_xhs_search_id 1700000000000 0)"
  by (simp add: decode36_search_id)

text \<open>
  C9 (amended).  For two calls at non-decreasing timestamps and any draws of the random
  source (at most 2147483646): at strictly increasing timestamps the decoded ids are
  strictly increasing, and at equal timestamps they are ordered as the two draws are.
\<close>

theorem search_id_monotone:
  assumes "now1 \<le> now2" and "t1 \<le> 2147483646" and "t2 \<le> 2147483646"
  shows "(now1 < now2 \<longrightarrow>
            decode36 (get_xhs_search_id now1 t1) < decode36 (get_xhs_search_id now2 t2)) \<and>
         (now1 = now2 \<longrightarrow>
            (decode36 (get_xhs_search_id now1 t1) \<le> decode36 (get_xhs_search_id now2 t2)) = (t1 \<le> t2))"
proof -
  have "now1 * 2 ^ 64 + t1 < now2 * 2 ^ 64 + t2" if "now1 < now2"
  proof -
    from that have "Suc now1 \<le> now2" by simp
    then have "Suc now1 * 2 ^ 64 \<le> now2 * 2 ^ 64" by (rule mult_le_mono1)
    moreover have "t1 < 2 ^ 64" using assms(2) by simp
    ultimately show ?thesis by simp
  qed
  then show ?thesis by (simp add: decode36_search_id)
qed

theorem search_id_monotone_witness:
  "(1700000000000::nat) \<le> 1700000000001 \<and> (2147483646::nat) \<le> 2147483646 \<and>
   (0::nat) \<le> 2147483646 \<and>
   decode36 (get_xhs_search_id 1700000000000 2147483646) <
   decode36 (get_xhs_search_id 1700000000001 0)"
  using search_id_monotone [of 1700000000000 1700000000001 2147483646 0] by simp

subsection \<open>Fixed-length encoder\<close>

lemma getitem_nat: "i < length xs \<Longrightarrow> getitem xs (int i) = Inr (xs ! i)"
  by (simp add: getitem_def)

lemma getitem_in_range:
  "0 \<le> i \<Longrightarrow> i < int (length xs) \<Longrightarrow> getitem xs i = Inr (xs ! nat i)"
  by (simp add: getitem_def)

lemma xhs_d_length: "length xhs_d = 65"
  by (simp add: xhs_d_def str_def)

lemma xhs_d_get: "0 \<le> i \<and> i \<le> 64 \<Longrightarrow> getitem xhs_d i = Inr (xhs_d ! nat i)"
  by (simp add: getitem_in_range xhs_d_length)

lemma xhs_d_mem: "0 \<le> i \<and> i \<le> 64 \<Longrightarrow> xhs_d ! nat i \<in> set xhs_d"
  by (rule nth_mem) (auto simp: xhs_d_length)

lemma six_bits_or: "0 \<le> a \<Longrightarrow> a < 64 \<Longrightarrow> 0 \<le> b \<Longrightarrow> b < 64 \<Longrightarrow> 0 \<le> a OR b \<and> a OR b \<le> (64::int)"
  using OR_upper [of a 6 b] by simp

lemma xhs_idx_bounds:
  fixes o' g h :: int
  assumes "0 \<le> o'" "o' < 256" "0 \<le> g" "g < 256" "0 \<le> h" "h < 256"
  shows "0 \<le> drop_bit 2 o' \<and> drop_bit 2 o' \<le> 64"
    and "0 \<le> push_bit 4 (o' AND 3) OR drop_bit 4 g \<and> push_bit 4 (o' AND 3) OR drop_bit 4 g \<le> 64"
    and "0 \<le> (if g = 0 then 64 else push_bit 2 (15 AND g) OR drop_bit 6 h) \<and>
         (if g = 0 then 64 else push_bit 2 (15 AND g) OR drop_bit 6 h) \<le> 64"
    and "0 \<le> (if g = 0 then 64 else if h \<noteq> 0 then h AND 63 else 64) \<and>
         (if g = 0 then 64 else if h \<noteq> 0 then h AND 63 else 64) \<le> 64"
proof -
  have "o' div 4 \<le> 64" using assms(2) by linarith
  then show "0 \<le> drop_bit 2 o' \<and> drop_bit 2 o' \<le> 64"
    using assms(1) by (simp add: drop_bit_eq_div)
  have a3: "0 \<le> o' AND 3" "o' AND 3 \<le> 3"
    using assms AND_upper2 [of 3 o'] by simp_all
  have g15: "0 \<le> 15 AND g" "15 AND g \<le> 15"
    using assms AND_upper1 [of 15 g] by simp_all
  have g4: "0 \<le> g div 16" "g div 16 < 64" using assms(3,4) by linarith+
  have h6: "0 \<le> h div 64" "h div 64 < 64" using assms(5,6) by linarith+
  show "0 \<le> push_bit 4 (o' AND 3) OR drop_bit 4 g \<and> push_bit 4 (o' AND 3) OR drop_bit 4 g \<le> 64"
    using a3 g4 by (intro six_bits_or) (simp_all add: push_bit_eq_mult drop_bit_eq_div)
  have "0 \<le> push_bit 2 (15 AND g) OR drop_bit 6 h \<and> push_bit 2 (15 AND g) OR drop_bit 6 h \<le> 64"
    using g15 h6 by (intro six_bits_or) (simp_all add: push_bit_eq_mult drop_bit_eq_div)
  then show "0 \<le> (if g = 0 then 64 else push_bit 2 (15 AND g) OR drop_bit 6 h) \<and>
         (if g = 0 then 64 else push_bit 2 (15 AND g) OR drop_bit 6 h) \<le> 64"
    by simp
  have "0 \<le> h AND 63 \<and> h AND 63 \<le> 64"
    using assms AND_upper2 [of 63 h] by simp
  then show "0 \<le> (if g = 0 then 64 else if h \<noteq> 0 then h AND 63 else 64) \<and>
         (if g = 0 then 64 else if h \<noteq> 0 then h AND 63 else 64) \<le> 64"
    by simp
qed

lemma xhs_h_step_ok:
  assumes n: "length n = 32" "\<forall>c\<in>set n. c < 256" and i: "i + 1 < 32"
  shows "\<exists>c1 c2 c3 c4. xhs_h_step n i m = Inr (m @ [c1, c2, c3, c4]) \<and>
           {c1, c2, c3, c4} \<subseteq> set xhs_d \<and> (\<not> i + 2 < 32 \<longrightarrow> c4 = xhs_d ! 64)"
proof -
  let ?o = "int (n ! i)" and ?g = "int (n ! (i + 1))"
  have g1: "getitem n (int i) = Inr (n ! i)" "getitem n (int i + 1) = Inr (n ! (i + 1))"
    using n i getitem_nat [of i n] getitem_nat [of "i + 1" n] by (simp_all add: add.commute)
  have bo: "0 \<le> ?o" "?o < 256" "0 \<le> ?g" "?g < 256"
    using n i by simp_all
  show ?thesis
  proof (cases "i + 2 < 32")
    case True
    let ?h = "int (n ! (i + 2))"
    have g2: "getitem n (int i + 2) = Inr (n ! (i + 2))"
      using n True getitem_nat [of "i + 2" n] by (simp add: add.commute)
    have bh: "0 \<le> ?h" "?h < 256" using n True by simp_all
    note bs = xhs_idx_bounds [OF bo bh]
    note gs = bs [THEN xhs_d_get]
    note ms = bs [THEN xhs_d_mem]
    have "xhs_h_step n i m =
        Inr (m @ [xhs_d ! nat (drop_bit 2 ?o),
                  xhs_d ! nat (push_bit 4 (?o AND 3) OR drop_bit 4 ?g),
                  xhs_d ! nat (if ?g = 0 then 64 else push_bit 2 (15 AND ?g) OR drop_bit 6 ?h),
                  xhs_d ! nat (if ?g = 0 then 64 else if ?h \<noteq> 0 then ?h AND 63 else 64)])"
      by (simp only: xhs_h_step_def g1 g2 bind_def sum.case Let_def i True if_True
          gs)
    with ms show ?thesis using True by auto
  next
    case False
    have bh: "0 \<le> (0::int)" "(0::int) < 256" by simp_all
    note bs = xhs_idx_bounds [OF bo bh]
    note gs = bs [THEN xhs_d_get]
    note ms = bs [THEN xhs_d_mem]
    have "xhs_h_step n i m =
        Inr (m @ [xhs_d ! nat (drop_bit 2 ?o),
                  xhs_d ! nat (push_bit 4 (?o AND 3) OR drop_bit 4 ?g),
                  xhs_d ! nat (if ?g = 0 then 64 else push_bit 2 (15 AND ?g) OR drop_bit 6 0),
                  xhs_d ! nat (if ?g = 0 then 64 else if (0::int) \<noteq> 0 then 0 AND 63 else 64)])"
      by (simp only: xhs_h_step_def g1 bind_def sum.case Let_def i False if_True if_False
          of_nat_0 gs)
    with ms show ?thesis using False by auto
  qed
qed

lemma foldM_append: "foldM f (xs @ ys) s = bind (foldM f xs s) (foldM f ys)"
  by (induction xs arbitrary: s) (simp_all add: bind_def split: sum.splits)

lemma foldM_appends:
  assumes "\<And>i m. i \<in> set xs \<Longrightarrow> \<exists>cs. f i m = Inr (m @ cs) \<and> length cs = k \<and> set cs \<subseteq> A"
  shows "\<exists>r. foldM f xs m = Inr (m @ r) \<and> length r = k * length xs \<and> set r \<subseteq> A"
  using assms
proof (induction xs arbitrary: m)
  case Nil
  then show ?case by simp
next
  case (Cons x xs)
  from Cons.prems [of x m] obtain cs where cs: "f x m = Inr (m @ cs)" "length cs = k" "set cs \<subseteq> A"
    by auto
  from Cons.IH [of "m @ cs"] Cons.prems
  obtain r where r: "foldM f xs (m @ cs) = Inr (m @ cs @ r)" "length r = k * length xs" "set r \<subseteq> A"
    by auto
  have "foldM f (x # xs) m = Inr (m @ (cs @ r))"
    by (simp add: cs(1) r(1) bind_def)
  moreover have "length (cs @ r) = k * length (x # xs)" using cs(2) r(2) by simp
  moreover have "set (cs @ r) \<subseteq> A" using cs(3) r(3) by simp
  ultimately show ?case by blast
qed

lemma range3_32: "range3 32 = [0, 3, 6, 9, 12, 15, 18, 21, 24, 27] @ [30]"
  by (simp add: range3_def upt_rec)

lemma is_hexdigest_bytes: "is_hexdigest n \<Longrightarrow> length n = 32 \<and> (\<forall>c\<in>set n. c < 256)"
  by (auto simp: is_hexdigest_def list_all_iff str_def)

text \<open>
  C6.  For every MD5 digest in lowercase hexadecimal (32 characters) the encoder
  \<open>_xhs_h\<close> returns exactly 44 characters, each of them from its table of 65 symbols.
  The loop runs over the eleven offsets 0, 3, \<dots>, 30; the group at offset 30 has two
  input characters only, so its last character is the placeholder at index 64.
\<close>

theorem xhs_h_44:
  assumes "is_hexdigest n"
  shows "\<exists>m. xhs_h n = Inr m \<and> length m = 44 \<and> set m \<subseteq> set xhs_d \<and>
             length xhs_d = 65 \<and> last m = xhs_d ! 64"
proof -
  from assms have n: "length n = 32" "\<forall>c\<in>set n. c < 256"
    using is_hexdigest_bytes by blast+
  have step: "\<exists>cs. xhs_h_step n i m = Inr (m @ cs) \<and> length cs = 4 \<and> set cs \<subseteq> set xhs_d"
    if "i \<in> set [0, 3, 6, 9, 12, 15, 18, 21, 24, 27]" for i m
  proof -
    from that have "i + 1 < 32" by auto
    from xhs_h_step_ok [OF n this, of m] obtain c1 c2 c3 c4
      where "xhs_h_step n i m = Inr (m @ [c1, c2, c3, c4])" "{c1, c2, c3, c4} \<subseteq> set xhs_d"
      by blast
    then show ?thesis by (intro exI [of _ "[c1, c2, c3, c4]"]) simp
  qed
  from foldM_appends [of "[0, 3, 6, 9, 12, 15, 18, 21, 24, 27]" "xhs_h_step n" 4 "set xhs_d" "[]", OF step]
  obtain r where r: "foldM (xhs_h_step n) [0, 3, 6, 9, 12, 15, 18, 21, 24, 27] [] = Inr r"
    "length r = 40" "set r \<subseteq> set xhs_d"
    by auto
  from xhs_h_step_ok [OF n, of 30 r] obtain c1 c2 c3 c4
    where l: "xhs_h_step n 30 r = Inr (r @ [c1, c2, c3, c4])" "{c1, c2, c3, c4} \<subseteq> set xhs_d"
      "c4 = xhs_d ! 64"
    by auto
  have "xhs_h n = Inr (r @ [c1, c2, c3, c4])"
    unfolding xhs_h_def range3_32 foldM_append r(1) by (simp add: bind_def l(1))
  with r l show ?thesis by (simp add: xhs_d_length)
qed

theorem xhs_h_44_witness:
  "is_hexdigest (str ''0123456789abcdef0123456789abcdef'') \<and>
   (\<exists>m. xhs_h (str ''0123456789abcdef0123456789abcdef'') = Inr m \<and> length m = 44 \<and>
        set m \<subseteq> set xhs_d)"
proof -
  have h: "is_hexdigest (str ''0123456789abcdef0123456789abcdef'')"
    by (simp add: is_hexdigest_def str_def)
  from xhs_h_44 [OF h] h show ?thesis by blast
qed

end
